theory Spec2Isabelle
  imports Main "HOL-Library.Word"
begin

section \<open>Values, tuples and errors\<close>

text \<open>
  The store's values (\<^verbatim>\<open>types.Value\<close>) as a tagged union.  \<^verbatim>\<open>types.Uint\<close> is Go's
  \<^verbatim>\<open>uint64\<close>; a \<^verbatim>\<open>types.Tuple\<close> is an ordered sequence of values.
\<close>

datatype val =
    VNull
  | VBool bool
  | VInt int
  | VUint "64 word"
  | VString string
  | VTuple "val list"

type_synonym Tuple = "val list"

text \<open>
  Errors as values.  \<^verbatim>\<open>io.EOF\<close> is the end-of-sequence signal; \<^verbatim>\<open>fmt.Errorf(msg)\<close> is
  \<open>Errorf msg\<close>; a failed type assertion \<^verbatim>\<open>key.(types.Tuple)\<close> panics.  The remaining
  constructors are the error taxonomy of the row codec and of the update engine.
\<close>

datatype NomsKind = NullKind | BoolKind | IntKind | UintKind | StringKind | TupleKind

fun kindOf :: "val \<Rightarrow> NomsKind" where
  "kindOf VNull = NullKind"
| "kindOf (VBool b) = BoolKind"
| "kindOf (VInt i) = IntKind"
| "kindOf (VUint n) = UintKind"
| "kindOf (VString s) = StringKind"
| "kindOf (VTuple vs) = TupleKind"

datatype error =
    EOF
  | Errorf string
  | TypeAssertionPanic
  | MalformedRowError
  | DuplicateAssignmentColumnError nat
  | UnknownColumnError nat
  | NullConstraintViolation nat
  | TypeMismatchError NomsKind NomsKind nat
  | PrimaryKeyCollisionError Tuple

section \<open>The ordered map and its iterators\<close>

text \<open>
  Modelled from the spec: \<^verbatim>\<open>types.Map\<close> and \<^verbatim>\<open>types.MapIterator\<close> (package
  \<^verbatim>\<open>go/store/types\<close>) are not among the source files.  The map is "an immutable sorted
  mapping from key-tuple to value-tuple" that "supports forward iteration from the start,
  from an arbitrary key, or from a byte offset, and supports buffered/unbuffered iteration
  modes".  It is modelled in memory as the list of its entries in iteration order; an
  iterator is the list of the entries it has not yet returned together with the mode of
  the primitive that created it.  The offset of \<^verbatim>\<open>BufferedIteratorAt\<close> is the index of
  the first entry to return.  The in-memory primitives never fail, but they keep the
  error component of the Go signatures.
\<close>

type_synonym NomsMap = "(val \<times> val) list"

datatype iterMode = PlainIter | BufferedIter

record MapIterator =
  mode :: iterMode
  pending :: "(val \<times> val) list"

definition Iterator :: "NomsMap \<Rightarrow> error + MapIterator" where
  "Iterator m = Inr \<lparr>mode = PlainIter, pending = m\<rparr>"

definition BufferedIterator :: "NomsMap \<Rightarrow> error + MapIterator" where
  "BufferedIterator m = Inr \<lparr>mode = BufferedIter, pending = m\<rparr>"

definition BufferedIteratorAt :: "NomsMap \<Rightarrow> 64 word \<Rightarrow> error + MapIterator" where
  "BufferedIteratorAt m pos = Inr \<lparr>mode = BufferedIter, pending = drop (unat pos) m\<rparr>"

text \<open>
  \<^verbatim>\<open>iter.Next(ctx)\<close> returns \<^verbatim>\<open>(key, val, err)\<close>; at the end of the map the key is
  \<^verbatim>\<open>nil\<close> and the error is \<^verbatim>\<open>nil\<close>.
\<close>

definition Next :: "MapIterator \<Rightarrow> (error + (val \<times> val) option) \<times> MapIterator" where
  "Next it = (case pending it of
                [] \<Rightarrow> (Inr None, it)
              | e # es \<Rightarrow> (Inr (Some e), it\<lparr>pending := es\<rparr>))"

section \<open>Keyless rows\<close>

text \<open>
  Modelled from the spec: \<^verbatim>\<open>row.KeylessRowsFromTuples\<close> (package \<^verbatim>\<open>doltcore/row\<close>) is not
  among the source files.  "For keyless schemas, the first value field is parsed as the
  duplicate count and the remainder as the row payload; decoding fails with a
  MalformedRowError if the count field is missing or non-positive."  The count is the
  \<^verbatim>\<open>uint64\<close> that \<^verbatim>\<open>ReadRow\<close> stores in \<^verbatim>\<open>rdr.duplicates\<close>.  The Go function returns the
  triple \<^verbatim>\<open>(Row, uint64, error)\<close>; with an error the other two components are the zero
  values \<^verbatim>\<open>nil\<close> and \<^verbatim>\<open>0\<close>.
\<close>

type_synonym keylessRow = "val list"

fun KeylessRowsFromTuples :: "Tuple \<Rightarrow> Tuple \<Rightarrow> keylessRow option \<times> 64 word \<times> error option" where
  "KeylessRowsFromTuples key (VUint n # payload) =
     (if n = 0 then (None, 0, Some MalformedRowError) else (Some payload, n, None))"
| "KeylessRowsFromTuples key vs = (None, 0, Some MalformedRowError)"

section \<open>The keyless table reader\<close>

text \<open>
  \<^verbatim>\<open>schema.Schema\<close>: an ordered list of columns, each with a tag, a declared kind, a
  nullability flag and a primary-key membership flag.
\<close>

record Column =
  tag :: nat
  kind :: NomsKind
  nullable :: bool
  isPartOfPK :: bool

type_synonym Schema = "Column list"

text \<open>\<^verbatim>\<open>doltdb.Table\<close>: \<^verbatim>\<open>GetRowData\<close> loads the row map of the table, or fails.\<close>

record Table =
  rowData :: "error + NomsMap"

definition GetRowData :: "Table \<Rightarrow> error + NomsMap" where
  "GetRowData tbl = rowData tbl"

text \<open>
  \<^verbatim>\<open>keylessTableReader\<close> (keyless\_reader.go, lines 32--39).  A fresh reader has a
  \<^verbatim>\<open>nil\<close> row and \<^verbatim>\<open>duplicates = 0\<close>.
\<close>

record keylessTableReader =
  iter :: MapIterator
  sch :: Schema
  row :: "keylessRow option"
  duplicates :: "64 word"

text \<open>
  \<^verbatim>\<open>ReadRow\<close> (lines 49--67).  The result pairs what the call returns with the reader as
  the call leaves it.  Line 58 assigns \<^verbatim>\<open>rdr.row\<close> and \<^verbatim>\<open>rdr.duplicates\<close> before the
  error of the decoder is tested; line 64 decrements the \<^verbatim>\<open>uint64\<close>, which wraps.
\<close>

definition ReadRow :: "keylessTableReader \<Rightarrow> (error + keylessRow option) \<times> keylessTableReader" where
  "ReadRow rdr =
     (if duplicates rdr = 0 then
        (case Next (iter rdr) of
           (Inl err, it) \<Rightarrow> (Inl err, rdr\<lparr>iter := it\<rparr>)
         | (Inr None, it) \<Rightarrow> (Inl EOF, rdr\<lparr>iter := it\<rparr>)
         | (Inr (Some (VTuple key, VTuple vl)), it) \<Rightarrow>
             (case KeylessRowsFromTuples key vl of
                (r, d, Some err) \<Rightarrow> (Inl err, rdr\<lparr>iter := it, row := r, duplicates := d\<rparr>)
              | (r, d, None) \<Rightarrow> (Inr r, rdr\<lparr>iter := it, row := r, duplicates := d - 1\<rparr>))
         | (Inr (Some _), it) \<Rightarrow> (Inl TypeAssertionPanic, rdr\<lparr>iter := it\<rparr>))
      else (Inr (row rdr), rdr\<lparr>duplicates := duplicates rdr - 1\<rparr>))"

text \<open>\<^verbatim>\<open>newKeylessTableReader\<close> (lines 79--99).\<close>

definition newKeylessTableReader :: "Table \<Rightarrow> Schema \<Rightarrow> bool \<Rightarrow> error + keylessTableReader" where
  "newKeylessTableReader tbl sc buffered =
     (case GetRowData tbl of
        Inl err \<Rightarrow> Inl err
      | Inr rows \<Rightarrow>
          (case (if buffered then Iterator rows else BufferedIterator rows) of
             Inl err \<Rightarrow> Inl err
           | Inr it \<Rightarrow> Inr \<lparr>iter = it, sch = sc, row = None, duplicates = 0\<rparr>))"

text \<open>\<^verbatim>\<open>newKeylessTableReaderForPartition\<close> (lines 102--117); \<^verbatim>\<open>end\<close> is not used.\<close>

definition newKeylessTableReaderForPartition ::
  "Table \<Rightarrow> Schema \<Rightarrow> 64 word \<Rightarrow> 64 word \<Rightarrow> error + keylessTableReader" where
  "newKeylessTableReaderForPartition tbl sc start end' =
     (case GetRowData tbl of
        Inl err \<Rightarrow> Inl err
      | Inr rows \<Rightarrow>
          (case BufferedIteratorAt rows start of
             Inl err \<Rightarrow> Inl err
           | Inr it \<Rightarrow> Inr \<lparr>iter = it, sch = sc, row = None, duplicates = 0\<rparr>))"

text \<open>
  \<^verbatim>\<open>newKeylessTableReaderForRanges\<close> (lines 119--121).  A \<^verbatim>\<open>noms.ReadRange\<close> is opaque
  here: the function never looks at its ranges.
\<close>

definition newKeylessTableReaderForRanges ::
  "Table \<Rightarrow> Schema \<Rightarrow> 'range list \<Rightarrow> error + keylessTableReader" where
  "newKeylessTableReaderForRanges tbl sc ranges =
     Inl (Errorf ''newKeylessTableReaderForRanges is unimplemented'')"

text \<open>
  A caller that makes \<open>n\<close> successive \<^verbatim>\<open>ReadRow\<close> calls on one reader: the results of
  the calls in order, and the reader after the last one.
\<close>

fun readRows :: "nat \<Rightarrow> keylessTableReader \<Rightarrow> (error + keylessRow option) list \<times> keylessTableReader" where
  "readRows 0 rdr = ([], rdr)"
| "readRows (Suc n) rdr =
     (case ReadRow rdr of (res, rdr') \<Rightarrow>
        (case readRows n rdr' of (rs, rdr'') \<Rightarrow> (res # rs, rdr'')))"


text \<open>
  What a full scan of a keyless map is expected to yield, read off the physical entries:
  the duplicate count stored in an entry, the payload after it, and each entry's row
  repeated count times, in the order of the entries, paired with the entry's key.
\<close>

fun entryCount :: "val \<times> val \<Rightarrow> nat" where
  "entryCount (k, VTuple (VUint n # payload)) = unat n"
| "entryCount e = 0"

fun entryRow :: "val \<times> val \<Rightarrow> keylessRow" where
  "entryRow (k, VTuple (VUint n # payload)) = payload"
| "entryRow e = []"

fun wellFormedEntry :: "val \<times> val \<Rightarrow> bool" where
  "wellFormedEntry (VTuple k, VTuple (VUint n # payload)) = (n \<noteq> 0)"
| "wellFormedEntry e = False"

definition logicalRows :: "NomsMap \<Rightarrow> (val \<times> keylessRow) list" where
  "logicalRows m = concat (map (\<lambda>e. replicate (entryCount e) (fst e, entryRow e)) m)"

definition totalRows :: "NomsMap \<Rightarrow> nat" where
  "totalRows m = sum_list (map entryCount m)"

section \<open>The row codec\<close>

text \<open>
  Modelled from the spec: the row codec (package \<^verbatim>\<open>doltcore/row\<close>) is not among the source
  files.  A logical row is "a mapping from column tag to typed value or null".  The key
  tuple "for a primary-keyed table is the declared primary-key columns in declared order;
  for a keyless table it is a hash of the full row plus a uniquifying discriminator"; the
  value tuple is "the remaining typed column values; for a keyless table its first logical
  field is the duplicate count and the rest is the row payload".  For primary-keyed
  schemas the decoded duplicate count is always 1.  The hash and the discriminator are
  parameters.
\<close>

type_synonym Row = "nat \<Rightarrow> val"

definition isKeyless :: "Schema \<Rightarrow> bool" where
  "isKeyless sc = (\<not> list_ex isPartOfPK sc)"

definition allTags :: "Schema \<Rightarrow> nat list" where
  "allTags sc = map tag sc"

definition pkTags :: "Schema \<Rightarrow> nat list" where
  "pkTags sc = map tag (filter isPartOfPK sc)"

definition nonPkTags :: "Schema \<Rightarrow> nat list" where
  "nonPkTags sc = map tag (filter (\<lambda>c. \<not> isPartOfPK c) sc)"

definition rowFromFields :: "(nat \<times> val) list \<Rightarrow> Row" where
  "rowFromFields fs = (\<lambda>t. case map_of fs t of None \<Rightarrow> VNull | Some v \<Rightarrow> v)"

definition encode :: "(val list \<Rightarrow> val) \<Rightarrow> val \<Rightarrow> Row \<Rightarrow> 64 word \<Rightarrow> Schema \<Rightarrow> Tuple \<times> Tuple" where
  "encode rowHash discriminator r n sc =
     (if isKeyless sc
      then ([rowHash (map r (allTags sc)), discriminator], VUint n # map r (allTags sc))
      else (map r (pkTags sc), map r (nonPkTags sc)))"

definition decode :: "Tuple \<Rightarrow> Tuple \<Rightarrow> Schema \<Rightarrow> error + (Row \<times> 64 word)" where
  "decode key vl sc =
     (if isKeyless sc
      then (case KeylessRowsFromTuples key vl of
              (_, _, Some err) \<Rightarrow> Inl err
            | (None, _, None) \<Rightarrow> Inl MalformedRowError
            | (Some payload, n, None) \<Rightarrow> Inr (rowFromFields (zip (allTags sc) payload), n))
      else Inr (rowFromFields (zip (pkTags sc) key @ zip (nonPkTags sc) vl), 1))"

section \<open>The update engine\<close>

text \<open>
  Modelled from the spec: \<^verbatim>\<open>ExecuteUpdate\<close> (package \<^verbatim>\<open>doltcore/sql\<close>) is not among the
  source files; only its test \<^verbatim>\<open>TestExecuteUpdate\<close> is.  The definitions below follow
  sections 4.3 to 4.5 of the spec for the tables the test runs on: primary-keyed tables,
  whose map takes the tuple of a row's primary-key values (\<^verbatim>\<open>NomsMapKey\<close> in the test) to
  the row, kept here as the list of the map's entries with each value already decoded
  into its logical row.  Duplicate counts play no part: every entry stands for one row.
\<close>

type_synonym RowMap = "(Tuple \<times> Row) list"

record TableSnapshot =
  rows :: RowMap
  schema :: Schema

record StagedChange =
  oldKey :: Tuple
  newKey :: Tuple
  newRow :: Row

record UpdateResult =
  newSnapshot :: TableSnapshot
  rowsUpdated :: nat
  rowsUnchanged :: nat
  errorsIgnored :: nat

definition NomsMapKey :: "Row \<Rightarrow> Schema \<Rightarrow> Tuple" where
  "NomsMapKey r sc = map r (pkTags sc)"

text \<open>
  Modelled from the spec (4.4, Assignment Validator): "if literalValue is null and the
  column is NOT NULL, fail with NullConstraintViolation.  Otherwise coerce literalValue's
  source type to the column's declared type using a fixed compatibility table; any pairing
  not in the table fails with TypeMismatchError naming both types and the column."  The
  spec does not print the table: it is the parameter \<open>coerce\<close>.  A tag that names no
  column of the schema cannot come out of statement construction; it is rejected.
\<close>

type_synonym Coercion = "NomsKind \<Rightarrow> val \<Rightarrow> val option"

definition validateAssignment :: "Coercion \<Rightarrow> Schema \<Rightarrow> nat \<times> val \<Rightarrow> error + val" where
  "validateAssignment coerce sc a =
     (case find (\<lambda>c. tag c = fst a) sc of
        None \<Rightarrow> Inl (UnknownColumnError (fst a))
      | Some c \<Rightarrow>
          if snd a = VNull \<and> \<not> nullable c then Inl (NullConstraintViolation (tag c))
          else (case coerce (kind c) (snd a) of
                  None \<Rightarrow> Inl (TypeMismatchError (kindOf (snd a)) (kind c) (tag c))
                | Some v \<Rightarrow> Inr v))"

text \<open>
  Modelled from the spec (4.3, step 3): "apply every assignment through the Assignment
  Validator to build a candidate mutated row", and the test "every field of the candidate
  equals the corresponding field of the original row".
\<close>

fun candidateRow :: "Coercion \<Rightarrow> Schema \<Rightarrow> Row \<Rightarrow> (nat \<times> val) list \<Rightarrow> error + Row" where
  "candidateRow coerce sc r [] = Inr r"
| "candidateRow coerce sc r (a # as) =
     (case validateAssignment coerce sc a of
        Inl err \<Rightarrow> Inl err
      | Inr v \<Rightarrow> candidateRow coerce sc (r(fst a := v)) as)"

definition rowsEqual :: "Schema \<Rightarrow> Row \<Rightarrow> Row \<Rightarrow> bool" where
  "rowsEqual sc a b = list_all (\<lambda>c. a (tag c) = b (tag c)) sc"

text \<open>
  Modelled from the spec (4.3, steps 2 and 3): the scan in key order.  A row the
  predicate selects is either counted as unchanged or staged as
  \<open>{oldKey, newKey, newRow}\<close>; the first validation failure aborts the scan.
\<close>

fun scanRows ::
  "Coercion \<Rightarrow> Schema \<Rightarrow> (Row \<Rightarrow> bool) \<Rightarrow> (nat \<times> val) list \<Rightarrow> RowMap \<Rightarrow>
     error + (StagedChange list \<times> nat)" where
  "scanRows coerce sc predicate as [] = Inr ([], 0)"
| "scanRows coerce sc predicate as ((k, r) # es) =
     (if predicate r then
        (case candidateRow coerce sc r as of
           Inl err \<Rightarrow> Inl err
         | Inr c \<Rightarrow>
             (case scanRows coerce sc predicate as es of
                Inl err \<Rightarrow> Inl err
              | Inr (staged, unchanged) \<Rightarrow>
                  if rowsEqual sc c r then Inr (staged, Suc unchanged)
                  else Inr (\<lparr>oldKey = k, newKey = NomsMapKey c sc, newRow = c\<rparr> # staged,
                            unchanged)))
      else scanRows coerce sc predicate as es)"

text \<open>
  Modelled from the spec (4.5, Collision Detector): "Builds the set of resulting primary
  keys (staged new keys plus all untouched existing keys) and fails with
  PrimaryKeyCollisionError if any key appears more than once, or if a staged new key
  equals an existing, non-staged key belonging to a different original row."
\<close>

fun firstDuplicate :: "'a list \<Rightarrow> 'a option" where
  "firstDuplicate [] = None"
| "firstDuplicate (x # xs) = (if x \<in> set xs then Some x else firstDuplicate xs)"

definition untouchedKeys :: "RowMap \<Rightarrow> StagedChange list \<Rightarrow> Tuple list" where
  "untouchedKeys m staged = filter (\<lambda>k. k \<notin> set (map oldKey staged)) (map fst m)"

definition collisionKey :: "RowMap \<Rightarrow> StagedChange list \<Rightarrow> Tuple option" where
  "collisionKey m staged =
     (case firstDuplicate (map newKey staged @ untouchedKeys m staged) of
        Some k \<Rightarrow> Some k
      | None \<Rightarrow> find (\<lambda>k. k \<in> set (untouchedKeys m staged)) (map newKey staged))"

text \<open>
  Modelled from the spec (4.3, step 5): "derive the new map by removing every staged
  oldKey entry and inserting every staged newKey -> newRow entry".
\<close>

definition mapRemove :: "Tuple \<Rightarrow> RowMap \<Rightarrow> RowMap" where
  "mapRemove k m = filter (\<lambda>e. fst e \<noteq> k) m"

fun mapSet :: "Tuple \<Rightarrow> Row \<Rightarrow> RowMap \<Rightarrow> RowMap" where
  "mapSet k v [] = [(k, v)]"
| "mapSet k v (e # m) = (if fst e = k then (k, v) # m else e # mapSet k v m)"

definition commitChanges :: "RowMap \<Rightarrow> StagedChange list \<Rightarrow> RowMap" where
  "commitChanges m staged =
     fold (\<lambda>s. mapSet (newKey s) (newRow s)) staged
       (fold (\<lambda>s. mapRemove (oldKey s)) staged m)"

text \<open>
  Modelled from the spec (4.3 and section 6): \<open>executeUpdate\<close> returns the update
  result, or the statement error "and the prior Table Snapshot is returned unchanged
  together with an error".  As in Go, the result and the error are a pair; with an error
  the counts are zero.  The counts are numbers of rows of the scanned list.
\<close>

definition aborted :: "TableSnapshot \<Rightarrow> error \<Rightarrow> UpdateResult \<times> error option" where
  "aborted snapshot err =
     (\<lparr>newSnapshot = snapshot, rowsUpdated = 0, rowsUnchanged = 0, errorsIgnored = 0\<rparr>,
      Some err)"

definition executeUpdate ::
  "Coercion \<Rightarrow> TableSnapshot \<Rightarrow> (Row \<Rightarrow> bool) \<Rightarrow> (nat \<times> val) list \<Rightarrow>
     UpdateResult \<times> error option" where
  "executeUpdate coerce snapshot predicate as =
     (case firstDuplicate (map fst as) of
        Some t \<Rightarrow> aborted snapshot (DuplicateAssignmentColumnError t)
      | None \<Rightarrow>
          (case scanRows coerce (schema snapshot) predicate as (rows snapshot) of
             Inl err \<Rightarrow> aborted snapshot err
           | Inr (staged, unchanged) \<Rightarrow>
               (case collisionKey (rows snapshot) staged of
                  Some k \<Rightarrow> aborted snapshot (PrimaryKeyCollisionError k)
                | None \<Rightarrow>
                    (\<lparr>newSnapshot = snapshot\<lparr>rows := commitChanges (rows snapshot) staged\<rparr>,
                      rowsUpdated = length staged,
                      rowsUnchanged = unchanged,
                      errorsIgnored = 0\<rparr>,
                     None))))"

text \<open>
  The fixtures of the scenarios: a table \<open>people\<close> in the shape of the test's
  (\<open>id\<close> is the primary key), and a compatibility table that accepts a literal of the
  column's own kind and null.
\<close>

definition sameKindOnly :: Coercion where
  "sameKindOnly k v = (if v = VNull \<or> kindOf v = k then Some v else None)"

definition peopleTestSchema :: Schema where
  "peopleTestSchema =
     [\<lparr>tag = 0, kind = IntKind, nullable = False, isPartOfPK = True\<rparr>,
      \<lparr>tag = 1, kind = StringKind, nullable = False, isPartOfPK = False\<rparr>,
      \<lparr>tag = 2, kind = StringKind, nullable = False, isPartOfPK = False\<rparr>,
      \<lparr>tag = 3, kind = IntKind, nullable = True, isPartOfPK = False\<rparr>]"

definition newPeopleRow :: "int \<Rightarrow> string \<Rightarrow> string \<Rightarrow> int \<Rightarrow> Row" where
  "newPeopleRow i firstName lastName age =
     (\<lambda>t. if t = 0 then VInt i else if t = 1 then VString firstName
          else if t = 2 then VString lastName else if t = 3 then VInt age else VNull)"

definition homer :: Row where "homer = newPeopleRow 0 ''Homer'' ''Simpson'' 40"
definition marge :: Row where "marge = newPeopleRow 1 ''Marge'' ''Simpson'' 38"
definition moe :: Row where "moe = newPeopleRow 4 ''Moe'' ''Szyslak'' 48"

definition people :: TableSnapshot where
  "people = \<lparr>rows = [([VInt 0], homer), ([VInt 1], marge), ([VInt 4], moe)],
             schema = peopleTestSchema\<rparr>"

definition keylessExample :: NomsMap where
  "keylessExample =
     [(VTuple [VString ''k1''], VTuple [VUint 1, VString ''x'']),
      (VTuple [VString ''k2''], VTuple [VUint 2, VString ''y''])]"

definition keylessExampleLess :: "val \<Rightarrow> val \<Rightarrow> bool" where
  "keylessExampleLess a b = (a = VTuple [VString ''k1''] \<and> b = VTuple [VString ''k2''])"

section \<open>Properties of the keyless table reader\<close>

subsection \<open>One call\<close>

lemma ReadRow_buffered:
  "duplicates rdr \<noteq> 0 \<Longrightarrow> ReadRow rdr = (Inr (row rdr), rdr\<lparr>duplicates := duplicates rdr - 1\<rparr>)"
  by (simp add: ReadRow_def)

lemma unat_minus_one_Suc: "unat (d :: 64 word) = Suc n \<Longrightarrow> unat (d - 1) = n"
  by (metis diff_Suc_1 unat_minus_one unat_eq_zero nat.distinct(1))

lemma wellFormedEntry_cases:
  assumes "wellFormedEntry e"
  obtains k n payload where "e = (VTuple k, VTuple (VUint n # payload))" "n \<noteq> 0"
  using assms by (cases e rule: wellFormedEntry.cases) auto

lemma ReadRow_idle:
  assumes "duplicates rdr = 0" "pending (iter rdr) = e # es" "wellFormedEntry e"
  shows "ReadRow rdr = (Inr (Some (entryRow e)),
           rdr\<lparr>iter := (iter rdr)\<lparr>pending := es\<rparr>, row := Some (entryRow e),
               duplicates := of_nat (entryCount e) - 1\<rparr>)"
proof -
  from assms(3) obtain k n payload where e: "e = (VTuple k, VTuple (VUint n # payload))" "n \<noteq> 0"
    by (rule wellFormedEntry_cases)
  then show ?thesis using assms(1,2) by (simp add: ReadRow_def Next_def)
qed

lemma ReadRow_exhausted:
  "duplicates rdr = 0 \<Longrightarrow> pending (iter rdr) = [] \<Longrightarrow> fst (ReadRow rdr) = Inl EOF"
  by (simp add: ReadRow_def Next_def)

subsection \<open>Successive calls\<close>

lemma readRows_buffered:
  "unat (duplicates rdr) = n \<Longrightarrow>
   readRows n rdr = (replicate n (Inr (row rdr)), rdr\<lparr>duplicates := 0\<rparr>)"
proof (induction n arbitrary: rdr)
  case 0
  then have "duplicates rdr = 0" by (simp add: unat_eq_zero)
  then show ?case by simp
next
  case (Suc n)
  then have nz: "duplicates rdr \<noteq> 0" by auto
  have "unat (duplicates rdr - 1) = n" using Suc.prems by (rule unat_minus_one_Suc)
  then have "readRows n (rdr\<lparr>duplicates := duplicates rdr - 1\<rparr>) =
             (replicate n (Inr (row rdr)), rdr\<lparr>duplicates := 0\<rparr>)"
    using Suc.IH [of "rdr\<lparr>duplicates := duplicates rdr - 1\<rparr>"] by simp
  then show ?case using nz by (simp add: ReadRow_buffered)
qed

lemma readRows_add:
  "readRows (a + b) rdr =
     (case readRows a rdr of (xs, rdr') \<Rightarrow>
        (case readRows b rdr' of (ys, rdr'') \<Rightarrow> (xs @ ys, rdr'')))"
  by (induction a arbitrary: rdr) (auto split: prod.splits)

lemma readRows_entries:
  assumes "duplicates rdr = 0" "pending (iter rdr) = es" "list_all wellFormedEntry es"
  shows "fst (readRows (totalRows es) rdr) = map (\<lambda>(k, r). Inr (Some r)) (logicalRows es)
       \<and> duplicates (snd (readRows (totalRows es) rdr)) = 0
       \<and> pending (iter (snd (readRows (totalRows es) rdr))) = []"
  using assms
proof (induction es arbitrary: rdr)
  case Nil
  then show ?case by (simp add: totalRows_def logicalRows_def)
next
  case (Cons e es)
  from Cons.prems(3) have wf: "wellFormedEntry e" and wfs: "list_all wellFormedEntry es" by simp_all
  from wf obtain k n payload where e: "e = (VTuple k, VTuple (VUint n # payload))" "n \<noteq> 0"
    by (rule wellFormedEntry_cases)
  from e obtain c where c: "unat n = Suc c" by (metis unat_eq_zero not0_implies_Suc)
  define rdr1 where "rdr1 = rdr\<lparr>iter := (iter rdr)\<lparr>pending := es\<rparr>, row := Some payload,
               duplicates := n - 1\<rparr>"
  define rdr2 where "rdr2 = rdr1\<lparr>duplicates := 0\<rparr>"
  have step1: "ReadRow rdr = (Inr (Some payload), rdr1)"
    using ReadRow_idle [OF Cons.prems(1,2) wf] e by (simp add: rdr1_def)
  have "unat (duplicates rdr1) = c" using c by (simp add: rdr1_def unat_minus_one_Suc)
  then have step2: "readRows c rdr1 = (replicate c (Inr (Some payload)), rdr2)"
    using readRows_buffered [of rdr1 c] by (simp add: rdr2_def rdr1_def)
  have ih: "fst (readRows (totalRows es) rdr2) = map (\<lambda>(k, r). Inr (Some r)) (logicalRows es)
       \<and> duplicates (snd (readRows (totalRows es) rdr2)) = 0
       \<and> pending (iter (snd (readRows (totalRows es) rdr2))) = []"
    by (rule Cons.IH) (simp_all add: rdr2_def rdr1_def wfs)
  have tot: "totalRows (e # es) = Suc (c + totalRows es)"
    using e c by (simp add: totalRows_def)
  have rws: "logicalRows (e # es) = replicate (Suc c) (VTuple k, payload) @ logicalRows es"
    using e c by (simp add: logicalRows_def)
  show ?case
    using ih unfolding tot rws
    by (auto simp add: step1 readRows_add step2 split: prod.splits)
qed

lemma readRows_then_EOF:
  assumes "duplicates rdr = 0" "pending (iter rdr) = es" "list_all wellFormedEntry es"
  shows "fst (readRows (Suc (totalRows es)) rdr) =
           map (\<lambda>(k, r). Inr (Some r)) (logicalRows es) @ [Inl EOF]"
proof -
  obtain xs rdr' where r: "readRows (totalRows es) rdr = (xs, rdr')"
    by (cases "readRows (totalRows es) rdr")
  with readRows_entries [OF assms]
  have xs: "xs = map (\<lambda>(k, r). Inr (Some r)) (logicalRows es)"
    and idle: "duplicates rdr' = 0" "pending (iter rdr') = []" by simp_all
  have "fst (ReadRow rdr') = Inl EOF" using idle by (rule ReadRow_exhausted)
  then have "fst (readRows 1 rdr') = [Inl EOF]" by (cases "ReadRow rdr'") simp
  moreover have "readRows (totalRows es + 1) rdr =
     (case readRows (totalRows es) rdr of (xs, rdr') \<Rightarrow>
        (case readRows 1 rdr' of (ys, rdr'') \<Rightarrow> (xs @ ys, rdr'')))"
    by (rule readRows_add)
  ultimately show ?thesis using r xs by (simp split: prod.splits)
qed

subsection \<open>The expected sequence\<close>

lemma length_logicalRows: "length (logicalRows m) = totalRows m"
  by (induction m) (simp_all add: logicalRows_def totalRows_def)

lemma set_logicalRows_fst: "fst ` set (logicalRows m) \<subseteq> fst ` set m"
  by (induction m) (auto simp add: logicalRows_def)

lemma sorted_logicalRows:
  "sorted_wrt keyLess (map fst m) \<Longrightarrow>
   sorted_wrt (\<lambda>a b. keyLess a b \<or> a = b) (map fst (logicalRows m))"
proof (induction m)
  case Nil
  then show ?case by (simp add: logicalRows_def)
next
  case (Cons e m)
  have "logicalRows (e # m) = replicate (entryCount e) (fst e, entryRow e) @ logicalRows m"
    by (simp add: logicalRows_def)
  moreover have "sorted_wrt (\<lambda>a b. keyLess a b \<or> a = b) (replicate (entryCount e) (fst e))"
    by (simp add: sorted_wrt_iff_nth_less)
  moreover have "\<forall>y \<in> fst ` set (logicalRows m). keyLess (fst e) y"
    using Cons.prems set_logicalRows_fst [of m] by fastforce
  ultimately show ?case using Cons by (simp add: sorted_wrt_append)
qed

lemma totalRows_keylessExample: "totalRows keylessExample = 3"
  by (simp add: totalRows_def keylessExample_def)

lemma logicalRows_keylessExample:
  "logicalRows keylessExample =
     [(VTuple [VString ''k1''], [VString ''x'']),
      (VTuple [VString ''k2''], [VString ''y'']),
      (VTuple [VString ''k2''], [VString ''y''])]"
proof -
  have "replicate 2 x = [x, x]" for x :: "val \<times> keylessRow"
    by (simp add: numeral_2_eq_2)
  then show ?thesis by (simp add: logicalRows_def keylessExample_def)
qed

subsection \<open>Full scan\<close>

text \<open>
  Claim C1.  Let the row map of a keyless table hold well-formed entries (tuple key, tuple
  value whose first field is a count of at least 1) in increasing key order, and let a
  reader be constructed from the beginning of the map, in either mode.  Then
  \<open>totalRows m + 1\<close> successive \<^verbatim>\<open>ReadRow\<close> calls return, in order, the row of every
  entry repeated as many times as the count stored in the entry (\<open>logicalRows m\<close>) and
  then \<^verbatim>\<open>io.EOF\<close>; the number of rows is the sum of the counts; the keys of the rows
  returned never decrease; and every call made while a duplicate is buffered returns the
  buffered row and lowers the remaining count by exactly one.
\<close>

theorem ReadRow_full_scan:
  assumes "GetRowData tbl = Inr m"
    and "list_all wellFormedEntry m"
    and "sorted_wrt keyLess (map fst m)"
    and "newKeylessTableReader tbl sc buffered = Inr rdr"
  shows "fst (readRows (Suc (totalRows m)) rdr) =
           map (\<lambda>(k, r). Inr (Some r)) (logicalRows m) @ [Inl EOF]
       \<and> length (logicalRows m) = totalRows m
       \<and> sorted_wrt (\<lambda>a b. keyLess a b \<or> a = b) (map fst (logicalRows m))
       \<and> (\<forall>r. duplicates r \<noteq> 0 \<longrightarrow>
            ReadRow r = (Inr (row r), r\<lparr>duplicates := duplicates r - 1\<rparr>)
            \<and> unat (duplicates (snd (ReadRow r))) = unat (duplicates r) - 1)"
proof -
  from assms(1,4) have "duplicates rdr = 0" "pending (iter rdr) = m"
    by (auto simp: newKeylessTableReader_def Iterator_def BufferedIterator_def split: if_splits)
  then have "fst (readRows (Suc (totalRows m)) rdr) =
           map (\<lambda>(k, r). Inr (Some r)) (logicalRows m) @ [Inl EOF]"
    using assms(2) by (rule readRows_then_EOF)
  moreover have "\<forall>r. duplicates r \<noteq> 0 \<longrightarrow>
            ReadRow r = (Inr (row r), r\<lparr>duplicates := duplicates r - 1\<rparr>)
            \<and> unat (duplicates (snd (ReadRow r))) = unat (duplicates r) - 1"
    by (auto simp add: ReadRow_buffered unat_minus_one)
  ultimately show ?thesis
    using length_logicalRows [of m] sorted_logicalRows [OF assms(3)] by blast
qed

theorem ReadRow_full_scan_witness:
  "GetRowData \<lparr>rowData = Inr keylessExample\<rparr> = Inr keylessExample
   \<and> list_all wellFormedEntry keylessExample
   \<and> sorted_wrt keylessExampleLess (map fst keylessExample)
   \<and> newKeylessTableReader \<lparr>rowData = Inr keylessExample\<rparr> [] False =
       Inr \<lparr>iter = \<lparr>mode = BufferedIter, pending = keylessExample\<rparr>, sch = [],
            row = None, duplicates = 0\<rparr>
   \<and> fst (readRows 4 \<lparr>iter = \<lparr>mode = BufferedIter, pending = keylessExample\<rparr>, sch = [],
                        row = None, duplicates = 0\<rparr>) =
       [Inr (Some [VString ''x'']), Inr (Some [VString ''y'']), Inr (Some [VString ''y'']),
        Inl EOF]"
proof -
  have h1: "GetRowData \<lparr>rowData = Inr keylessExample\<rparr> = Inr keylessExample"
    by (simp add: GetRowData_def)
  have h2: "list_all wellFormedEntry keylessExample"
    by (simp add: keylessExample_def)
  have h3: "sorted_wrt keylessExampleLess (map fst keylessExample)"
    by (simp add: keylessExample_def keylessExampleLess_def)
  have h4: "newKeylessTableReader \<lparr>rowData = Inr keylessExample\<rparr> [] False =
       Inr \<lparr>iter = \<lparr>mode = BufferedIter, pending = keylessExample\<rparr>, sch = [],
            row = None, duplicates = 0\<rparr>"
    by (simp add: newKeylessTableReader_def GetRowData_def BufferedIterator_def)
  show ?thesis
    using ReadRow_full_scan [OF h1 h2 h3 h4, THEN conjunct1] h1 h2 h3 h4
    by (simp add: totalRows_keylessExample logicalRows_keylessExample)
qed

subsection \<open>Construction\<close>

text \<open>
  Claim C6.  The claim asks for the buffered primitive when \<open>buffered\<close> is true and for
  the plain one when it is false.  \<^verbatim>\<open>newKeylessTableReader\<close> has the two branches the
  other way round (lines 86--90): with \<open>buffered = True\<close> the iterator comes from
  \<^verbatim>\<open>rows.Iterator\<close>, with \<open>buffered = False\<close> from \<^verbatim>\<open>rows.BufferedIterator\<close>.
\<close>

theorem newKeylessTableReader_mode_swapped:
  "newKeylessTableReader \<lparr>rowData = Inr m\<rparr> sc True =
     Inr \<lparr>iter = \<lparr>mode = PlainIter, pending = m\<rparr>, sch = sc, row = None, duplicates = 0\<rparr>
   \<and> newKeylessTableReader \<lparr>rowData = Inr m\<rparr> sc False =
     Inr \<lparr>iter = \<lparr>mode = BufferedIter, pending = m\<rparr>, sch = sc, row = None, duplicates = 0\<rparr>"
  by (simp add: newKeylessTableReader_def GetRowData_def Iterator_def BufferedIterator_def)

text \<open>
  Claim C7.  A reader constructed at offset \<open>start\<close> over well-formed entries returns
  the rows of every entry from that offset to the end of the map, each with its full
  stored count, and then \<^verbatim>\<open>io.EOF\<close>.  When the offset lies inside the map, the sequence
  starts with all the copies of the entry at the offset: the boundary entry is not split.
\<close>

theorem partition_reader_full_counts:
  assumes "GetRowData tbl = Inr m"
    and "list_all wellFormedEntry (drop (unat start) m)"
    and "newKeylessTableReaderForPartition tbl sc start end' = Inr rdr"
  shows "fst (readRows (Suc (totalRows (drop (unat start) m))) rdr) =
           map (\<lambda>(k, r). Inr (Some r)) (logicalRows (drop (unat start) m)) @ [Inl EOF]
       \<and> (unat start < length m \<longrightarrow>
            logicalRows (drop (unat start) m) =
              replicate (entryCount (m ! unat start))
                (fst (m ! unat start), entryRow (m ! unat start))
              @ logicalRows (drop (Suc (unat start)) m))"
proof -
  from assms(1,3) have "duplicates rdr = 0" "pending (iter rdr) = drop (unat start) m"
    by (auto simp: newKeylessTableReaderForPartition_def BufferedIteratorAt_def)
  then have "fst (readRows (Suc (totalRows (drop (unat start) m))) rdr) =
           map (\<lambda>(k, r). Inr (Some r)) (logicalRows (drop (unat start) m)) @ [Inl EOF]"
    using assms(2) by (rule readRows_then_EOF)
  moreover have "unat start < length m \<longrightarrow>
            logicalRows (drop (unat start) m) =
              replicate (entryCount (m ! unat start))
                (fst (m ! unat start), entryRow (m ! unat start))
              @ logicalRows (drop (Suc (unat start)) m)"
  proof
    assume "unat start < length m"
    then have "drop (unat start) m = m ! unat start # drop (Suc (unat start)) m"
      by (simp add: Cons_nth_drop_Suc)
    then show "logicalRows (drop (unat start) m) =
              replicate (entryCount (m ! unat start))
                (fst (m ! unat start), entryRow (m ! unat start))
              @ logicalRows (drop (Suc (unat start)) m)"
      by (simp add: logicalRows_def)
  qed
  ultimately show ?thesis by simp
qed

theorem partition_reader_full_counts_witness:
  "GetRowData \<lparr>rowData = Inr keylessExample\<rparr> = Inr keylessExample
   \<and> list_all wellFormedEntry (drop (unat (1 :: 64 word)) keylessExample)
   \<and> newKeylessTableReaderForPartition \<lparr>rowData = Inr keylessExample\<rparr> [] 1 2 =
       Inr \<lparr>iter = \<lparr>mode = BufferedIter, pending = drop 1 keylessExample\<rparr>, sch = [],
            row = None, duplicates = 0\<rparr>
   \<and> fst (readRows 3 \<lparr>iter = \<lparr>mode = BufferedIter, pending = drop 1 keylessExample\<rparr>,
                        sch = [], row = None, duplicates = 0\<rparr>) =
       [Inr (Some [VString ''y'']), Inr (Some [VString ''y'']), Inl EOF]"
proof -
  have h1: "GetRowData \<lparr>rowData = Inr keylessExample\<rparr> = Inr keylessExample"
    by (simp add: GetRowData_def)
  have h2: "list_all wellFormedEntry (drop (unat (1 :: 64 word)) keylessExample)"
    by (simp add: keylessExample_def)
  have h3: "newKeylessTableReaderForPartition \<lparr>rowData = Inr keylessExample\<rparr> [] 1 2 =
       Inr \<lparr>iter = \<lparr>mode = BufferedIter, pending = drop 1 keylessExample\<rparr>, sch = [],
            row = None, duplicates = 0\<rparr>"
    by (simp add: newKeylessTableReaderForPartition_def GetRowData_def BufferedIteratorAt_def)
  have d: "drop (Suc 0) keylessExample =
      [(VTuple [VString ''k2''], VTuple [VUint 2, VString ''y''])]"
    by (simp add: keylessExample_def)
  have t: "totalRows (drop (Suc 0) keylessExample) = 2"
    unfolding d by (simp add: totalRows_def)
  have "replicate 2 x = [x, x]" for x :: "val \<times> keylessRow"
    by (simp add: numeral_2_eq_2)
  then have l: "logicalRows (drop (Suc 0) keylessExample) =
      [(VTuple [VString ''k2''], [VString ''y'']), (VTuple [VString ''k2''], [VString ''y''])]"
    unfolding d by (simp add: logicalRows_def)
  show ?thesis
    using partition_reader_full_counts [OF h1 h2 h3, THEN conjunct1] h1 h2 h3
    by (simp add: t l)
qed

text \<open>
  Claim C8.  For every table, schema and list of ranges,
  \<^verbatim>\<open>newKeylessTableReaderForRanges\<close> returns the error "is unimplemented" and never a
  reader.  Nothing is read from the table.
\<close>

theorem newKeylessTableReaderForRanges_unimplemented:
  "newKeylessTableReaderForRanges tbl sc ranges =
     Inl (Errorf ''newKeylessTableReaderForRanges is unimplemented'')
   \<and> (\<forall>rdr. newKeylessTableReaderForRanges tbl sc ranges \<noteq> Inr rdr)"
  by (simp add: newKeylessTableReaderForRanges_def)




section \<open>Properties of the row codec\<close>

lemma rowFromFields_zip_map:
  "rowFromFields (zip ts (map r ts)) = (\<lambda>t. if t \<in> set ts then r t else VNull)"
  by (simp add: rowFromFields_def map_of_zip_map fun_eq_iff)

lemma rowFromFields_zip_map_append:
  "rowFromFields (zip ts (map r ts) @ zip us (map r us)) =
     (\<lambda>t. if t \<in> set ts \<union> set us then r t else VNull)"
  by (auto simp add: rowFromFields_def map_of_zip_map fun_eq_iff map_add_def)

lemma set_pkTags_nonPkTags: "set (pkTags sc) \<union> set (nonPkTags sc) = tag ` set sc"
  by (auto simp add: pkTags_def nonPkTags_def)

text \<open>
  Claim C5.  For a schema \<open>sc\<close>, a row \<open>r\<close> that is null outside the columns of the
  schema, and a duplicate count \<open>n\<close> of at least 1 (exactly 1 when the schema has a
  primary key, where no count is stored), decoding the tuples that \<open>encode\<close> produces
  gives back \<open>(r, n)\<close>, whatever the hash and the discriminator are.  For a
  primary-keyed schema every decoded count is 1.
\<close>

theorem decode_encode:
  assumes "\<forall>t. t \<notin> tag ` set sc \<longrightarrow> r t = VNull"
    and "n \<noteq> 0"
    and "\<not> isKeyless sc \<longrightarrow> n = 1"
  shows "(case encode rowHash discriminator r n sc of (key, vl) \<Rightarrow> decode key vl sc) = Inr (r, n)
       \<and> (\<not> isKeyless sc \<longrightarrow>
            (\<forall>key vl r' n'. decode key vl sc = Inr (r', n') \<longrightarrow> n' = 1))"
proof (cases "isKeyless sc")
  case True
  have "rowFromFields (zip (allTags sc) (map r (allTags sc))) = r"
    using assms(1) unfolding rowFromFields_zip_map by (auto simp add: allTags_def fun_eq_iff)
  then show ?thesis using True assms(2) by (simp add: encode_def decode_def)
next
  case False
  have "rowFromFields (zip (pkTags sc) (map r (pkTags sc)) @ zip (nonPkTags sc) (map r (nonPkTags sc))) = r"
    using assms(1) unfolding rowFromFields_zip_map_append set_pkTags_nonPkTags
    by (auto simp add: fun_eq_iff)
  then show ?thesis using False assms(3) by (simp add: encode_def decode_def)
qed

theorem decode_encode_witness:
  "(2 :: 64 word) \<noteq> 0
   \<and> isKeyless [\<lparr>tag = 1, kind = StringKind, nullable = True, isPartOfPK = False\<rparr>]
   \<and> encode VTuple (VUint 7) (\<lambda>t. if t = 1 then VString ''x'' else VNull) 2
        [\<lparr>tag = 1, kind = StringKind, nullable = True, isPartOfPK = False\<rparr>] =
       ([VTuple [VString ''x''], VUint 7], [VUint 2, VString ''x''])
   \<and> decode [VTuple [VString ''x''], VUint 7] [VUint 2, VString ''x'']
        [\<lparr>tag = 1, kind = StringKind, nullable = True, isPartOfPK = False\<rparr>] =
       Inr (\<lambda>t. if t = 1 then VString ''x'' else VNull, 2)"
proof -
  let ?sc = "[\<lparr>tag = 1, kind = StringKind, nullable = True, isPartOfPK = False\<rparr>]"
  let ?r = "\<lambda>t :: nat. if t = 1 then VString ''x'' else VNull"
  have h1: "\<forall>t. t \<notin> tag ` set ?sc \<longrightarrow> ?r t = VNull" by simp
  have h2: "(2 :: 64 word) \<noteq> 0" by simp
  have k: "isKeyless ?sc" by (simp add: isKeyless_def)
  then have h3: "\<not> isKeyless ?sc \<longrightarrow> (2 :: 64 word) = 1" by simp
  have e: "encode VTuple (VUint 7) ?r 2 ?sc =
       ([VTuple [VString ''x''], VUint 7], [VUint 2, VString ''x''])"
    by (simp add: encode_def isKeyless_def allTags_def)
  show ?thesis
    using decode_encode [where rowHash = VTuple and discriminator = "VUint 7", OF h1 h2 h3, THEN conjunct1]
      h2 k e
    by simp
qed

section \<open>Properties of the update engine\<close>

subsection \<open>Scan, collision detector and commit\<close>

lemma firstDuplicate_None_iff: "firstDuplicate xs = None \<longleftrightarrow> distinct xs"
  by (induction xs) auto

lemma collisionKey_None_iff:
  "collisionKey m st = None \<longleftrightarrow> distinct (map newKey st @ untouchedKeys m st)"
proof
  assume "collisionKey m st = None"
  then show "distinct (map newKey st @ untouchedKeys m st)"
    by (simp add: collisionKey_def firstDuplicate_None_iff [symmetric] split: option.splits)
next
  assume d: "distinct (map newKey st @ untouchedKeys m st)"
  then have "find (\<lambda>k. k \<in> set (untouchedKeys m st)) (map newKey st) = None"
    by (auto simp add: find_None_iff)
  then show "collisionKey m st = None"
    using d by (simp add: collisionKey_def firstDuplicate_None_iff [symmetric] split: option.splits)
qed

lemma candidateRow_any_row:
  "candidateRow coerce sc r as = Inr c \<Longrightarrow> \<exists>c'. candidateRow coerce sc r' as = Inr c'"
  by (induction as arbitrary: r r' c) (auto split: sum.splits)

lemma rowsEqual_NomsMapKey: "rowsEqual sc c r \<Longrightarrow> NomsMapKey c sc = NomsMapKey r sc"
  by (auto simp add: rowsEqual_def NomsMapKey_def pkTags_def list_all_iff)

lemma scanRows_oldKeys:
  "scanRows coerce sc p as es = Inr (st, u) \<Longrightarrow>
   map oldKey st =
     map fst (filter (\<lambda>(k, r). p r \<and> (\<exists>c. candidateRow coerce sc r as = Inr c \<and> \<not> rowsEqual sc c r)) es)"
  by (induction es arbitrary: st u) (auto split: if_splits sum.splits prod.splits)


lemma scanRows_staged_mem:
  "scanRows coerce sc p as es = Inr (st, u) \<Longrightarrow> (k, r) \<in> set es \<Longrightarrow> p r \<Longrightarrow>
   candidateRow coerce sc r as = Inr c \<Longrightarrow> \<not> rowsEqual sc c r \<Longrightarrow>
   \<lparr>oldKey = k, newKey = NomsMapKey c sc, newRow = c\<rparr> \<in> set st"
  by (induction es arbitrary: st u) (auto split: if_splits sum.splits prod.splits)

lemma scanRows_total:
  "\<forall>e \<in> set es. p (snd e) \<longrightarrow> (\<exists>c. candidateRow coerce sc (snd e) as = Inr c) \<Longrightarrow>
   \<exists>st u. scanRows coerce sc p as es = Inr (st, u)"
  by (induction es) (auto split: if_splits sum.splits prod.splits)






lemma staged_collision:
  assumes scan: "scanRows coerce sc p as m = Inr (st, u)"
    and dist: "distinct (map fst m)"
    and keys: "\<forall>e \<in> set m. fst e = NomsMapKey (snd e) sc"
    and e1: "(k1, r1) \<in> set m" "p r1" "candidateRow coerce sc r1 as = Inr c1"
    and e2: "(k2, r2) \<in> set m" "k2 \<noteq> k1"
    and clash: "(p r2 \<and> (\<exists>c2. candidateRow coerce sc r2 as = Inr c2
                              \<and> NomsMapKey c2 sc = NomsMapKey c1 sc))
              \<or> (\<not> p r2 \<and> NomsMapKey c1 sc = k2)"
  shows "\<not> distinct (map newKey st @ untouchedKeys m st)"
proof -
  have old: "map oldKey st =
     map fst (filter (\<lambda>(k, r). p r \<and> (\<exists>c. candidateRow coerce sc r as = Inr c
                                        \<and> \<not> rowsEqual sc c r)) m)"
    using scan by (rule scanRows_oldKeys)
  have untouched: "k \<in> set (untouchedKeys m st)"
    if "(k, r) \<in> set m" "\<not> p r \<or> (\<exists>c. candidateRow coerce sc r as = Inr c \<and> rowsEqual sc c r)"
    for k r
  proof -
    have "k \<notin> set (map oldKey st)"
    proof
      assume "k \<in> set (map oldKey st)"
      then obtain r' c' where r': "(k, r') \<in> set m" "p r'"
        "candidateRow coerce sc r' as = Inr c'" "\<not> rowsEqual sc c' r'"
        unfolding old by auto
      from r'(1) that(1) dist have "r' = r" by (meson eq_key_imp_eq_value)
      then show False using r' that(2) by auto
    qed
    then show ?thesis using that(1) by (force simp add: untouchedKeys_def)
  qed
  have staged: "NomsMapKey c sc \<in> set (map newKey st)"
    if "(k, r) \<in> set m" "p r" "candidateRow coerce sc r as = Inr c" "\<not> rowsEqual sc c r" for k r c
    using scanRows_staged_mem [OF scan that] by force
  have own: "k = NomsMapKey c sc"
    if "(k, r) \<in> set m" "rowsEqual sc c r" for k r c
    using keys that rowsEqual_NomsMapKey [OF that(2)] by force
  have clashI: "\<not> distinct (map newKey st @ untouchedKeys m st)"
    if "x \<in> set (map newKey st)" "x \<in> set (untouchedKeys m st)" for x
    using that by auto
  from clash show ?thesis
  proof
    assume a: "p r2 \<and> (\<exists>c2. candidateRow coerce sc r2 as = Inr c2
                              \<and> NomsMapKey c2 sc = NomsMapKey c1 sc)"
    then obtain c2 where c2: "p r2" "candidateRow coerce sc r2 as = Inr c2"
      "NomsMapKey c2 sc = NomsMapKey c1 sc" by blast
    show ?thesis
    proof (cases "rowsEqual sc c1 r1")
      case eq1: True
      then have k1: "k1 = NomsMapKey c1 sc" using e1(1) by (rule own [rotated])
      have u1: "k1 \<in> set (untouchedKeys m st)" using e1 eq1 by (auto intro: untouched)
      show ?thesis
      proof (cases "rowsEqual sc c2 r2")
        case True
        then have "k2 = NomsMapKey c2 sc" using e2(1) by (rule own [rotated])
        then show ?thesis using k1 c2(3) e2(2) by simp
      next
        case False
        have "NomsMapKey c2 sc \<in> set (map newKey st)" using e2(1) c2(1,2) False by (rule staged)
        then have "k1 \<in> set (map newKey st)" using k1 c2(3) by simp
        then show ?thesis using u1 by (rule clashI)
      qed
    next
      case ne1: False
      have n1: "NomsMapKey c1 sc \<in> set (map newKey st)" using e1 ne1 by (rule staged)
      let ?s1 = "\<lparr>oldKey = k1, newKey = NomsMapKey c1 sc, newRow = c1\<rparr>"
      have s1: "?s1 \<in> set st" using scan e1 ne1 by (rule scanRows_staged_mem)
      show ?thesis
      proof (cases "rowsEqual sc c2 r2")
        case True
        then have "k2 = NomsMapKey c2 sc" using e2(1) by (rule own [rotated])
        then have "k2 = NomsMapKey c1 sc" using c2(3) by simp
        moreover have "k2 \<in> set (untouchedKeys m st)" using e2(1) c2 True by (auto intro: untouched)
        ultimately show ?thesis using n1 clashI by blast
      next
        case False
        let ?s2 = "\<lparr>oldKey = k2, newKey = NomsMapKey c2 sc, newRow = c2\<rparr>"
        have s2: "?s2 \<in> set st" using scan e2(1) c2(1,2) False by (rule scanRows_staged_mem)
        have "?s1 \<noteq> ?s2" using e2(2) by simp
        moreover have "newKey ?s1 = newKey ?s2" using c2(3) by simp
        ultimately have "\<not> inj_on newKey (set st)" using s1 s2 by (meson inj_onD)
        then have "\<not> distinct (map newKey st)" by (simp add: distinct_map)
        then show ?thesis by simp
      qed
    qed
  next
    assume b: "\<not> p r2 \<and> NomsMapKey c1 sc = k2"
    then have u2: "k2 \<in> set (untouchedKeys m st)" using e2(1) by (auto intro: untouched)
    show ?thesis
    proof (cases "rowsEqual sc c1 r1")
      case True
      then have "k1 = NomsMapKey c1 sc" using e1(1) by (rule own [rotated])
      then show ?thesis using b e2(2) by simp
    next
      case False
      have "NomsMapKey c1 sc \<in> set (map newKey st)" using e1 False by (rule staged)
      then show ?thesis using u2 b clashI by blast
    qed
  qed
qed

subsection \<open>The people table\<close>

lemmas people_defs =
  people_def homer_def marge_def moe_def newPeopleRow_def peopleTestSchema_def

lemmas engine_defs =
  validateAssignment_def sameKindOnly_def NomsMapKey_def pkTags_def rowsEqual_def

lemma people_keys_distinct: "distinct (map fst (rows people))"
  by (simp add: people_defs)

lemma people_keys_own: "\<forall>e \<in> set (rows people). fst e = NomsMapKey (snd e) (schema people)"
  by (simp add: people_defs engine_defs)

subsection \<open>Atomicity, unchanged rows, collisions\<close>

text \<open>
  Claim C2.  If \<open>executeUpdate\<close> returns an error (the duplicate-column check, a
  validation failure during the scan, or a primary-key collision), the snapshot in its
  result is the input snapshot, and no row is reported as updated.
\<close>

theorem executeUpdate_error_keeps_snapshot:
  assumes "snd (executeUpdate coerce snapshot p as) = Some err"
  shows "newSnapshot (fst (executeUpdate coerce snapshot p as)) = snapshot
       \<and> rowsUpdated (fst (executeUpdate coerce snapshot p as)) = 0"
  using assms
  by (auto simp add: executeUpdate_def aborted_def split: option.splits sum.splits prod.splits)

theorem executeUpdate_error_keeps_snapshot_witness:
  "snd (executeUpdate sameKindOnly people (\<lambda>r. r 0 = VInt 0) [(1, VInt 1)]) =
     Some (TypeMismatchError IntKind StringKind 1)
   \<and> newSnapshot (fst (executeUpdate sameKindOnly people (\<lambda>r. r 0 = VInt 0) [(1, VInt 1)])) = people
   \<and> rowsUpdated (fst (executeUpdate sameKindOnly people (\<lambda>r. r 0 = VInt 0) [(1, VInt 1)])) = 0"
proof -
  have h: "snd (executeUpdate sameKindOnly people (\<lambda>r. r 0 = VInt 0) [(1, VInt 1)]) =
     Some (TypeMismatchError IntKind StringKind 1)"
    by (simp add: executeUpdate_def aborted_def people_defs engine_defs)
  show ?thesis
    using executeUpdate_error_keeps_snapshot [OF h] h by simp
qed

text \<open>
  Claim C3.  Take a statement whose assignment list names no column twice, and a snapshot
  whose map has no key twice and keys each row by its primary-key tuple.  Let the
  statement assign the selected row \<open>r1\<close> the candidate \<open>c1\<close>, and let \<open>r2\<close> be another
  row of the table such that either \<open>r2\<close> is selected too and its candidate has the
  primary key of \<open>c1\<close>, or \<open>r2\<close> is not selected and already holds the primary key of
  \<open>c1\<close>.  Then \<open>executeUpdate\<close> returns \<open>PrimaryKeyCollisionError\<close> with the input
  snapshot and \<open>rowsUpdated = 0\<close>.
\<close>

theorem executeUpdate_collision:
  assumes "distinct (map fst as)"
    and "distinct (map fst (rows snapshot))"
    and "\<forall>e \<in> set (rows snapshot). fst e = NomsMapKey (snd e) (schema snapshot)"
    and "(k1, r1) \<in> set (rows snapshot)"
    and "p r1"
    and "candidateRow coerce (schema snapshot) r1 as = Inr c1"
    and "(k2, r2) \<in> set (rows snapshot)"
    and "k2 \<noteq> k1"
    and "(p r2 \<and> (\<exists>c2. candidateRow coerce (schema snapshot) r2 as = Inr c2
                       \<and> NomsMapKey c2 (schema snapshot) = NomsMapKey c1 (schema snapshot)))
         \<or> (\<not> p r2 \<and> NomsMapKey c1 (schema snapshot) = k2)"
  shows "\<exists>k. executeUpdate coerce snapshot p as =
           (\<lparr>newSnapshot = snapshot, rowsUpdated = 0, rowsUnchanged = 0, errorsIgnored = 0\<rparr>,
            Some (PrimaryKeyCollisionError k))"
proof -
  have "\<forall>e \<in> set (rows snapshot). p (snd e) \<longrightarrow>
          (\<exists>c. candidateRow coerce (schema snapshot) (snd e) as = Inr c)"
    using candidateRow_any_row [OF assms(6)] by blast
  then obtain st u where
    scan: "scanRows coerce (schema snapshot) p as (rows snapshot) = Inr (st, u)"
    using scanRows_total by blast
  have "\<not> distinct (map newKey st @ untouchedKeys (rows snapshot) st)"
    using scan assms(2-9) by (rule staged_collision)
  then obtain k where "collisionKey (rows snapshot) st = Some k"
    using collisionKey_None_iff [of "rows snapshot" st] by (cases "collisionKey (rows snapshot) st") auto
  then show ?thesis
    using assms(1) scan by (simp add: executeUpdate_def aborted_def firstDuplicate_None_iff [THEN iffD2])
qed

theorem executeUpdate_collision_witness:
  "distinct (map fst [(0 :: nat, VInt 0)])
   \<and> distinct (map fst (rows people))
   \<and> ([VInt 1], marge) \<in> set (rows people)
   \<and> marge 1 = VString ''Marge''
   \<and> candidateRow sameKindOnly (schema people) marge [(0, VInt 0)] = Inr (marge(0 := VInt 0))
   \<and> ([VInt 0], homer) \<in> set (rows people)
   \<and> homer 1 \<noteq> VString ''Marge''
   \<and> NomsMapKey (marge(0 := VInt 0)) (schema people) = [VInt 0]
   \<and> (\<exists>k. executeUpdate sameKindOnly people (\<lambda>r. r 1 = VString ''Marge'') [(0, VInt 0)] =
           (\<lparr>newSnapshot = people, rowsUpdated = 0, rowsUnchanged = 0, errorsIgnored = 0\<rparr>,
            Some (PrimaryKeyCollisionError k)))"
proof -
  have h1: "distinct (map fst [(0 :: nat, VInt 0)])" by simp
  have h4: "([VInt 1], marge) \<in> set (rows people)" by (simp add: people_def)
  have h5: "marge 1 = VString ''Marge''" by (simp add: people_defs)
  have h6: "candidateRow sameKindOnly (schema people) marge [(0, VInt 0)] = Inr (marge(0 := VInt 0))"
    by (simp add: people_def peopleTestSchema_def engine_defs)
  have h7: "([VInt 0], homer) \<in> set (rows people)" by (simp add: people_def)
  have h8: "[VInt 0] \<noteq> [VInt 1]" by simp
  have n: "homer 1 \<noteq> VString ''Marge''" by (simp add: people_defs)
  have k: "NomsMapKey (marge(0 := VInt 0)) (schema people) = [VInt 0]"
    by (simp add: people_def peopleTestSchema_def engine_defs)
  have h9: "((\<lambda>r. r 1 = VString ''Marge'') homer
             \<and> (\<exists>c2. candidateRow sameKindOnly (schema people) homer [(0, VInt 0)] = Inr c2
                   \<and> NomsMapKey c2 (schema people) = NomsMapKey (marge(0 := VInt 0)) (schema people)))
          \<or> (\<not> (\<lambda>r. r 1 = VString ''Marge'') homer
              \<and> NomsMapKey (marge(0 := VInt 0)) (schema people) = [VInt 0])"
    using n k by simp
  show ?thesis
    using executeUpdate_collision [where p = "\<lambda>r. r 1 = VString ''Marge''",
        OF h1 people_keys_distinct people_keys_own h4 h5 h6 h7 h8 h9]
      h1 people_keys_distinct h4 h5 h6 h7 n k
    by blast
qed



end
